theory Spec2Isabelle
  imports Main "HOL-Library.Multiset"
begin

section \<open>Data model (main.go, lines 20-31)\<close>

text \<open>
  The struct \<^verbatim>\<open>profileResult\<close> and the option struct \<^verbatim>\<open>opts\<close>. Go strings are byte
  sequences, modelled as \<^typ>\<open>string\<close>; a \<^verbatim>\<open>nil\<close> slice and an empty slice behave alike under
  \<^verbatim>\<open>len\<close>, \<^verbatim>\<open>range\<close> and \<^verbatim>\<open>append\<close>, the only operations the program applies to them, so both
  are the empty list.
\<close>

record profileResult =
  idx :: int
  profile :: string
  header :: "string list"
  rows :: "string list list"

record opts =
  Profiles :: "string list"
  Output :: string
  ExcludeRoot :: bool

text \<open>The zero value that \<^verbatim>\<open>make([]profileResult, n)\<close> puts into every slot.\<close>

definition zeroResult :: profileResult where
  "zeroResult = \<lparr>idx = 0, profile = [], header = [], rows = []\<rparr>"

section \<open>Deduplication of the profile list (main.go, lines 82-93)\<close>

text \<open>
  The loop keeps the slice \<^verbatim>\<open>unique\<close> and the set \<^verbatim>\<open>processed\<close> (a map to the empty struct)
  as its state; a profile is appended when it is not yet in the set.
\<close>

fun dedup_loop :: "string list \<Rightarrow> string list \<times> string set \<Rightarrow> string list \<times> string set" where
  "dedup_loop [] (unique, processed) = (unique, processed)"
| "dedup_loop (p # ps) (unique, processed) =
     (if p \<notin> processed
      then dedup_loop ps (unique @ [p], insert p processed)
      else dedup_loop ps (unique, processed))"

definition dedup :: "string list \<Rightarrow> string list" where
  "dedup ps = fst (dedup_loop ps ([], {}))"

section \<open>The report fetcher (main.go, lines 33-75)\<close>

text \<open>
  The collaborators of one fetch are inputs of the model. \<open>loadConfig\<close> and
  \<open>generateReport\<close> are the outcomes of \<^verbatim>\<open>config.LoadDefaultConfig\<close> and of
  \<^verbatim>\<open>client.GenerateCredentialReport\<close> (\<open>Some e\<close> is the error \<open>e\<close>); \<open>getReport k\<close> is the
  outcome of the call of \<^verbatim>\<open>client.GetCredentialReport\<close> made in iteration \<open>k\<close> of the polling
  loop, an error or the report's content. The function \<^verbatim>\<open>ReadAll\<close> of the CSV reader is a
  parameter \<open>readAll\<close> of the fetcher.
\<close>

record iam_client =
  loadConfig :: "string option"
  generateReport :: "string option"
  getReport :: "nat \<Rightarrow> string + string"

text \<open>
  The errors a fetch returns, each with the profile and the wrapped cause as \<^verbatim>\<open>fmt.Errorf\<close>
  builds them. \<open>NilReport\<close> stands for the panic of reading \<^verbatim>\<open>report.Content\<close> through a nil
  pointer.
\<close>

datatype fetch_error =
    LoadingProfile string string
  | GenerateFailed string string
  | FetchFailed string string
  | ParseFailed string string
  | NilReport

text \<open>The calls a fetch makes, in the order it makes them.\<close>

datatype call = LoadConfig | Generate | GetReport | Sleep

text \<open>
  The polling loop of lines 50-58. Its state is the pair of variables \<^verbatim>\<open>report\<close> and \<^verbatim>\<open>err\<close>,
  with the calls made so far.
\<close>

function poll :: "(nat \<Rightarrow> string + string) \<Rightarrow> nat
    \<Rightarrow> string option \<times> string option \<times> call list
    \<Rightarrow> string option \<times> string option \<times> call list" where
  "poll get i (report, err, calls) =
     (if i < 10
      then (case get i of
              Inr content \<Rightarrow> (Some content, None, calls @ [GetReport])
            | Inl e \<Rightarrow> poll get (i + 1) (None, Some e, calls @ [GetReport, Sleep]))
      else (report, err, calls))"
  by pat_completeness auto
termination
  by (relation "measure (\<lambda>(get, i, st). 10 - i)") auto

declare poll.simps [simp del]

definition generateCredentialReport ::
  "(string \<Rightarrow> string + string list list) \<Rightarrow> iam_client \<Rightarrow> string
    \<Rightarrow> (fetch_error + string list \<times> string list list) \<times> call list" where
  "generateCredentialReport readAll client prof =
     (case loadConfig client of
        Some e \<Rightarrow> (Inl (LoadingProfile prof e), [LoadConfig])
      | None \<Rightarrow>
         (case generateReport client of
            Some e \<Rightarrow> (Inl (GenerateFailed prof e), [LoadConfig, Generate])
          | None \<Rightarrow>
             (case poll (getReport client) 0 (None, None, [LoadConfig, Generate]) of
                (report, Some e, calls) \<Rightarrow> (Inl (FetchFailed prof e), calls)
              | (None, None, calls) \<Rightarrow> (Inl NilReport, calls)
              | (Some content, None, calls) \<Rightarrow>
                 (case readAll content of
                    Inl e \<Rightarrow> (Inl (ParseFailed prof e), calls)
                  | Inr records \<Rightarrow>
                     (if length records = 0 then (Inr ([], []), calls)
                      else (Inr (hd records, tl records), calls))))))"

section \<open>The fetch coordinator (main.go, lines 95-121)\<close>

text \<open>
  One goroutine is started per profile. Goroutine \<open>i\<close> sends to the buffered channel
  \<^verbatim>\<open>sem\<close> of capacity 4 (the send blocks while the buffer is full), runs the fetch for its
  profile, stores the result in slot \<open>i\<close> of \<^verbatim>\<open>results\<close> or returns the error to the
  error group (which keeps the first one), and receives from \<^verbatim>\<open>sem\<close> in its deferred
  function. The goroutines interleave: a run is a schedule, a list of events, and an event that
  would block is not enabled (\<open>None\<close>).
\<close>

datatype task = Launched | Holding | Finished

datatype event = Acquire nat | Complete nat

record coordinator =
  sem :: nat
  tasks :: "task list"
  results :: "profileResult list"
  egErr :: "fetch_error option"

definition launch :: "string list \<Rightarrow> coordinator" where
  "launch ps =
     \<lparr>sem = 0, tasks = replicate (length ps) Launched,
      results = replicate (length ps) zeroResult, egErr = None\<rparr>"

fun step :: "(string \<Rightarrow> fetch_error + string list \<times> string list list) \<Rightarrow> string list
    \<Rightarrow> event \<Rightarrow> coordinator \<Rightarrow> coordinator option" where
  "step fetch ps (Acquire i) s =
     (if i < length (tasks s) \<and> tasks s ! i = Launched \<and> sem s < 4
      then Some (s\<lparr>sem := sem s + 1, tasks := (tasks s)[i := Holding]\<rparr>)
      else None)"
| "step fetch ps (Complete i) s =
     (if i < length (tasks s) \<and> tasks s ! i = Holding \<and> 0 < sem s
      then (case fetch (ps ! i) of
              Inl e \<Rightarrow>
                Some (s\<lparr>egErr := (case egErr s of None \<Rightarrow> Some e | Some e0 \<Rightarrow> Some e0),
                        sem := sem s - 1, tasks := (tasks s)[i := Finished]\<rparr>)
            | Inr (hdr, rws) \<Rightarrow>
                Some (s\<lparr>results := (results s)
                          [i := \<lparr>idx = int i, profile = ps ! i, header = hdr, rows = rws\<rparr>],
                        sem := sem s - 1, tasks := (tasks s)[i := Finished]\<rparr>))
      else None)"

fun run :: "(string \<Rightarrow> fetch_error + string list \<times> string list list) \<Rightarrow> string list
    \<Rightarrow> event list \<Rightarrow> coordinator \<Rightarrow> coordinator option" where
  "run fetch ps [] s = Some s"
| "run fetch ps (ev # evs) s =
     (case step fetch ps ev s of None \<Rightarrow> None | Some s' \<Rightarrow> run fetch ps evs s')"

text \<open>
  \<^verbatim>\<open>eg.Wait()\<close> returns once every goroutine has finished, with the first error recorded. A
  schedule that does not bring every goroutine to its end is not a run of the program
  (\<open>None\<close>).
\<close>

definition fetchAll :: "(string \<Rightarrow> fetch_error + string list \<times> string list list)
    \<Rightarrow> string list \<Rightarrow> event list \<Rightarrow> (fetch_error + profileResult list) option" where
  "fetchAll fetch ps schedule =
     (case run fetch ps schedule (launch ps) of
        None \<Rightarrow> None
      | Some s \<Rightarrow>
          if list_all (\<lambda>t. t = Finished) (tasks s)
          then Some (case egErr s of Some e \<Rightarrow> Inl e | None \<Rightarrow> Inr (results s))
          else None)"

section \<open>The merge (main.go, lines 128-159)\<close>

text \<open>The ways the program stops before it writes its output.\<close>

datatype fatal = ErrorFetchingReports fetch_error | MissingArnColumn | IndexOutOfRange

text \<open>\<^verbatim>\<open>strings.HasSuffix\<close>.\<close>

definition HasSuffix :: "string \<Rightarrow> string \<Rightarrow> bool" where
  "HasSuffix s suffix =
     (length suffix \<le> length s \<and> drop (length s - length suffix) s = suffix)"

text \<open>
  The search of lines 131-136, from position \<open>i\<close> of the header: the index of the first
  column named \<^verbatim>\<open>arn\<close>, or the initial value \<open>-1\<close> of \<^verbatim>\<open>arnIdx\<close>.
\<close>

fun findArn :: "int \<Rightarrow> string list \<Rightarrow> int" where
  "findArn i [] = - 1"
| "findArn i (h # hs) = (if h = ''arn'' then i else findArn (i + 1) hs)"

definition locateArn :: "profileResult list \<Rightarrow> fatal + int" where
  "locateArn rs =
     (if 0 < length rs
      then (let arnIdx = findArn 0 (header (rs ! 0))
            in if arnIdx < 0 then Inl MissingArnColumn else Inr arnIdx)
      else Inr (- 1))"

text \<open>
  The inner loop of lines 150-158 over the rows of one result; reading \<^verbatim>\<open>row[arnIdx]\<close>
  outside the row panics.
\<close>

fun appendRows :: "bool \<Rightarrow> int \<Rightarrow> string \<Rightarrow> string list list \<Rightarrow> string list list
    \<Rightarrow> fatal + string list list" where
  "appendRows excludeRoot arnIdx prof [] allResults = Inr allResults"
| "appendRows excludeRoot arnIdx prof (row # rest) allResults =
     (if excludeRoot
      then (if 0 \<le> arnIdx \<and> arnIdx < int (length row)
            then (if HasSuffix (row ! nat arnIdx) '':root''
                  then appendRows excludeRoot arnIdx prof rest allResults
                  else appendRows excludeRoot arnIdx prof rest (allResults @ [prof # row]))
            else Inl IndexOutOfRange)
      else appendRows excludeRoot arnIdx prof rest (allResults @ [prof # row]))"

text \<open>The outer loop of lines 149-159 over the results.\<close>

fun appendResults :: "bool \<Rightarrow> int \<Rightarrow> profileResult list \<Rightarrow> string list list
    \<Rightarrow> fatal + string list list" where
  "appendResults excludeRoot arnIdx [] allResults = Inr allResults"
| "appendResults excludeRoot arnIdx (res # rest) allResults =
     (case appendRows excludeRoot arnIdx (profile res) (rows res) allResults of
        Inl e \<Rightarrow> Inl e
      | Inr allResults' \<Rightarrow> appendResults excludeRoot arnIdx rest allResults')"

definition mergeResults :: "bool \<Rightarrow> profileResult list \<Rightarrow> fatal + string list list" where
  "mergeResults excludeRoot rs =
     (case locateArn rs of
        Inl e \<Rightarrow> Inl e
      | Inr arnIdx \<Rightarrow>
          appendResults excludeRoot arnIdx rs
            (if 0 < length rs then [''profile'' # header (rs ! 0)] else []))"

section \<open>The program (main.go, lines 77-159)\<close>

text \<open>
  \<^verbatim>\<open>main\<close> from the parsed options to the table it hands to the CSV writer. \<^verbatim>\<open>sort.Slice\<close>
  is a parameter \<open>sortSlice\<close>; it is not a stable sort, and all that is known of it is that it
  returns a permutation of the slice that is ordered by the comparison, here by \<^verbatim>\<open>idx\<close>.
\<close>

definition sortsByIdx :: "(profileResult list \<Rightarrow> profileResult list) \<Rightarrow> bool" where
  "sortsByIdx sortSlice = (\<forall>xs. mset (sortSlice xs) = mset xs \<and> sorted (map idx (sortSlice xs)))"

definition main :: "(profileResult list \<Rightarrow> profileResult list)
    \<Rightarrow> (string \<Rightarrow> string + string list list) \<Rightarrow> (string \<Rightarrow> iam_client) \<Rightarrow> opts \<Rightarrow> event list
    \<Rightarrow> (fatal + string list list) option" where
  "main sortSlice readAll iam options schedule =
     (let unique = dedup (Profiles options)
      in case fetchAll (\<lambda>p. fst (generateCredentialReport readAll (iam p) p)) unique schedule of
           None \<Rightarrow> None
         | Some (Inl e) \<Rightarrow> Some (Inl (ErrorFetchingReports e))
         | Some (Inr rs) \<Rightarrow> Some (mergeResults (ExcludeRoot options) (sortSlice rs)))"

section \<open>Properties of the deduplication\<close>

text \<open>The position of the first occurrence of \<open>x\<close> in \<open>ps\<close> (its length when there is none).\<close>

abbreviation first_pos :: "string list \<Rightarrow> string \<Rightarrow> nat" where
  "first_pos ps x \<equiv> length (takeWhile (\<lambda>z. z \<noteq> x) ps)"

text \<open>What the loop appends to \<^verbatim>\<open>unique\<close>, as a function of the set it starts from.\<close>

fun fresh :: "string set \<Rightarrow> string list \<Rightarrow> string list" where
  "fresh S [] = []"
| "fresh S (p # ps) = (if p \<in> S then fresh S ps else p # fresh (insert p S) ps)"

lemma dedup_loop_fresh: "fst (dedup_loop ps (u, S)) = u @ fresh S ps"
  by (induction ps arbitrary: u S) auto

lemma dedup_fresh: "dedup ps = fresh {} ps"
  by (simp add: dedup_def dedup_loop_fresh)

lemma set_fresh: "set (fresh S ps) = set ps - S"
  by (induction ps arbitrary: S) auto

lemma distinct_fresh: "distinct (fresh S ps)"
  by (induction ps arbitrary: S) (auto simp: set_fresh)

lemma first_pos_fresh:
  "sorted_wrt (<) (map (first_pos ps) (fresh S ps))"
proof (induction ps arbitrary: S)
  case Nil
  show ?case by simp
next
  case (Cons p ps)
  have shift: "map (first_pos (p # ps)) (fresh T ps) = map (\<lambda>x. Suc (first_pos ps x)) (fresh T ps)"
    if "p \<in> T" for T
    using that by (auto simp: set_fresh)
  have mono: "sorted_wrt (<) (map (\<lambda>x. Suc (first_pos ps x)) (fresh T ps))" for T
    using Cons.IH [of T] by (simp add: sorted_wrt_map)
  show ?case
  proof (cases "p \<in> S")
    case True
    then have "map (first_pos (p # ps)) (fresh S (p # ps))
                 = map (\<lambda>x. Suc (first_pos ps x)) (fresh S ps)"
      using shift [of S] by (simp del: takeWhile.simps)
    then show ?thesis using mono [of S] by (simp only:)
  next
    case False
    have "map (first_pos (p # ps)) (fresh (insert p S) ps)
            = map (\<lambda>x. Suc (first_pos ps x)) (fresh (insert p S) ps)"
      by (rule shift) simp
    moreover have "first_pos (p # ps) p = 0"
      by simp
    moreover have "fresh S (p # ps) = p # fresh (insert p S) ps"
      using False by simp
    ultimately have "map (first_pos (p # ps)) (fresh S (p # ps))
                 = 0 # map (\<lambda>x. Suc (first_pos ps x)) (fresh (insert p S) ps)"
      by (simp only: list.map)
    then show ?thesis using mono [of "insert p S"] by (simp only: sorted_wrt.simps) auto
  qed
qed

text \<open>
  C5. The working set handed to the fetch coordinator holds every distinct identifier of the
  input exactly once, and its elements are ordered by the position of their first appearance
  in the input; the input [a, b, a, c, b] gives [a, b, c].
\<close>

theorem dedup_first_appearance:
  "distinct (dedup ps) \<and> set (dedup ps) = set ps
   \<and> sorted_wrt (<) (map (first_pos ps) (dedup ps))
   \<and> dedup [''a'', ''b'', ''a'', ''c'', ''b''] = [''a'', ''b'', ''c'']"
proof -
  have "dedup [''a'', ''b'', ''a'', ''c'', ''b''] = [''a'', ''b'', ''c'']"
    by (simp add: dedup_def)
  then show ?thesis
    by (simp add: dedup_fresh set_fresh distinct_fresh first_pos_fresh)
qed

section \<open>Properties of the report fetcher\<close>

lemma poll_success:
  "k < 10 \<Longrightarrow> i \<le> k \<Longrightarrow> (\<forall>j. i \<le> j \<and> j < k \<longrightarrow> isl (get j)) \<Longrightarrow> get k = Inr c
    \<Longrightarrow> poll get i (r, e, cs) = (Some c, None, cs @ concat (replicate (k - i) [GetReport, Sleep]) @ [GetReport])"
proof (induction "k - i" arbitrary: i r e cs)
  case 0
  then have "i = k" by simp
  with 0 show ?case by (simp add: poll.simps)
next
  case (Suc d)
  then have lt: "i < k" and "isl (get i)" by auto
  then obtain x where x: "get i = Inl x" by (cases "get i") auto
  have "poll get i (r, e, cs) = poll get (i + 1) (None, Some x, cs @ [GetReport, Sleep])"
    using lt Suc.prems(1) x by (simp add: poll.simps)
  also have "\<dots> = (Some c, None, (cs @ [GetReport, Sleep]) @ concat (replicate (k - (i + 1)) [GetReport, Sleep]) @ [GetReport])"
    using Suc.hyps(2) Suc.prems lt by (intro Suc.hyps(1)) auto
  also have "k - i = Suc (k - (i + 1))" using lt by simp
  then have "(cs @ [GetReport, Sleep]) @ concat (replicate (k - (i + 1)) [GetReport, Sleep]) @ [GetReport]
     = cs @ concat (replicate (k - i) [GetReport, Sleep]) @ [GetReport]" by simp
  finally show ?case .
qed

lemma poll_exhausted:
  "i < 10 \<Longrightarrow> (\<forall>j. i \<le> j \<and> j < 10 \<longrightarrow> isl (get j))
    \<Longrightarrow> poll get i (r, e, cs) = (None, Some (projl (get 9)), cs @ concat (replicate (10 - i) [GetReport, Sleep]))"
proof (induction "9 - i" arbitrary: i r e cs)
  case 0
  then have i: "i = 9" by simp
  with 0 obtain x where x: "get 9 = Inl x" by (cases "get 9") auto
  show ?case unfolding i using x by (simp add: poll.simps)
next
  case (Suc d)
  then have lt: "i < 9" and "isl (get i)" by auto
  then obtain x where x: "get i = Inl x" by (cases "get i") auto
  have "poll get i (r, e, cs) = poll get (i + 1) (None, Some x, cs @ [GetReport, Sleep])"
    using lt x by (simp add: poll.simps)
  also have "\<dots> = (None, Some (projl (get 9)), (cs @ [GetReport, Sleep]) @ concat (replicate (10 - (i + 1)) [GetReport, Sleep]))"
    using Suc.hyps(2) Suc.prems lt by (intro Suc.hyps(1)) auto
  also have "10 - i = Suc (10 - (i + 1))" using lt by simp
  then have "(cs @ [GetReport, Sleep]) @ concat (replicate (10 - (i + 1)) [GetReport, Sleep])
     = cs @ concat (replicate (10 - i) [GetReport, Sleep])" by simp
  finally show ?case .
qed


lemma count_polls [simp]:
  "count_list (concat (replicate n [GetReport, Sleep])) GetReport = n"
  "count_list (concat (replicate n [GetReport, Sleep])) Generate = 0"
  by (induction n) auto

lemma count_list_append [simp]: "count_list (xs @ ys) c = count_list xs c + count_list ys c"
  by (induction xs) auto

text \<open>Lines 64-74: what the fetch returns once a retrieval has given \<open>content\<close>.\<close>

definition parsed :: "(string \<Rightarrow> string + string list list) \<Rightarrow> string \<Rightarrow> string
    \<Rightarrow> fetch_error + string list \<times> string list list" where
  "parsed readAll prof content =
     (case readAll content of
        Inl e \<Rightarrow> Inl (ParseFailed prof e)
      | Inr records \<Rightarrow> if records = [] then Inr ([], []) else Inr (hd records, tl records))"

lemma fetch_first_success:
  assumes "loadConfig client = None" "generateReport client = None"
    and "k < 10" "\<forall>j<k. isl (getReport client j)" "getReport client k = Inr content"
  shows "generateCredentialReport readAll client prof
    = (parsed readAll prof content,
       [LoadConfig, Generate] @ concat (replicate k [GetReport, Sleep]) @ [GetReport])"
proof -
  have "poll (getReport client) 0 (None, None, [LoadConfig, Generate])
      = (Some content, None,
         [LoadConfig, Generate] @ concat (replicate (k - 0) [GetReport, Sleep]) @ [GetReport])"
    using assms(3-5) by (intro poll_success) auto
  then show ?thesis
    using assms(1,2)
    by (simp add: generateCredentialReport_def parsed_def split: sum.splits)
qed

lemma fetch_all_fail:
  assumes "loadConfig client = None" "generateReport client = None"
    and "\<forall>j<10. isl (getReport client j)"
  shows "generateCredentialReport readAll client prof
    = (Inl (FetchFailed prof (projl (getReport client 9))),
       [LoadConfig, Generate] @ concat (replicate 10 [GetReport, Sleep]))"
proof -
  have "poll (getReport client) 0 (None, None, [LoadConfig, Generate])
      = (None, Some (projl (getReport client 9)),
         [LoadConfig, Generate] @ concat (replicate (10 - 0) [GetReport, Sleep]))"
    using assms(3) by (intro poll_exhausted) auto
  then show ?thesis
    using assms(1,2) by (simp add: generateCredentialReport_def)
qed

lemma fetch_cases:
  obtains (config) e where "loadConfig client = Some e"
      "generateCredentialReport readAll client prof = (Inl (LoadingProfile prof e), [LoadConfig])"
  | (generate) e where "loadConfig client = None" "generateReport client = Some e"
      "generateCredentialReport readAll client prof
         = (Inl (GenerateFailed prof e), [LoadConfig, Generate])"
  | (retrieved) k content where "loadConfig client = None" "generateReport client = None"
      "k < 10" "\<forall>j<k. isl (getReport client j)" "getReport client k = Inr content"
  | (timeout) "loadConfig client = None" "generateReport client = None"
      "\<forall>j<10. isl (getReport client j)"
proof (cases "loadConfig client")
  case (Some e)
  then show ?thesis by (intro config [of e]) (simp_all add: generateCredentialReport_def)
next
  case None
  show ?thesis
  proof (cases "generateReport client")
    case (Some e)
    with None show ?thesis by (intro generate [of e]) (simp_all add: generateCredentialReport_def)
  next
    case gen: None
    show ?thesis
    proof (cases "\<exists>k<10. \<not> isl (getReport client k)")
      case False
      with None gen show ?thesis by (intro timeout) auto
    next
      case True
      define k where "k = (LEAST k. k < 10 \<and> \<not> isl (getReport client k))"
      have k: "k < 10 \<and> \<not> isl (getReport client k)"
        unfolding k_def by (rule LeastI_ex) (use True in blast)
      have "isl (getReport client j)" if "j < k" for j
        using not_less_Least [of j "\<lambda>k. k < 10 \<and> \<not> isl (getReport client k)"] that k
        unfolding k_def by auto
      moreover obtain c where "getReport client k = Inr c"
        using k by (cases "getReport client k") auto
      ultimately show ?thesis using None gen k by (intro retrieved [of k c]) auto
    qed
  qed
qed

text \<open>
  C4. A fetch calls the retrieval at most 10 times. When configuration and generation succeed
  and attempt \<open>k\<close> (counted from 0, \<open>k < 10\<close>) is the first that succeeds, in particular
  when the first 9 fail and the 10th succeeds, the fetch goes on with the payload of that
  attempt, after \<open>k + 1\<close> retrievals: its result is what parsing that payload gives. When all
  10 attempts fail, the fetch returns the retrieval error that wraps the error of the last
  attempt. The generation request is never issued twice, and it is issued once in every fetch
  whose configuration loads.
\<close>

theorem retrieval_bounded_retry:
  "count_list (snd (generateCredentialReport readAll client prof)) GetReport \<le> 10
   \<and> count_list (snd (generateCredentialReport readAll client prof)) Generate \<le> 1
   \<and> (loadConfig client = None \<longrightarrow>
        count_list (snd (generateCredentialReport readAll client prof)) Generate = 1)
   \<and> (loadConfig client = None \<and> generateReport client = None \<and> k < 10
        \<and> (\<forall>j<k. isl (getReport client j)) \<and> getReport client k = Inr content \<longrightarrow>
        fst (generateCredentialReport readAll client prof)
          = (case readAll content of
               Inl e \<Rightarrow> Inl (ParseFailed prof e)
             | Inr records \<Rightarrow> if records = [] then Inr ([], []) else Inr (hd records, tl records))
        \<and> count_list (snd (generateCredentialReport readAll client prof)) GetReport = k + 1)
   \<and> (loadConfig client = None \<and> generateReport client = None
        \<and> (\<forall>j<10. isl (getReport client j)) \<longrightarrow>
        fst (generateCredentialReport readAll client prof)
          = Inl (FetchFailed prof (projl (getReport client 9)))
        \<and> count_list (snd (generateCredentialReport readAll client prof)) GetReport = 10)"
proof -
  have bounds: "count_list (snd (generateCredentialReport readAll client prof)) GetReport \<le> 10
     \<and> count_list (snd (generateCredentialReport readAll client prof)) Generate \<le> 1
     \<and> (loadConfig client = None \<longrightarrow>
        count_list (snd (generateCredentialReport readAll client prof)) Generate = 1)"
  proof (cases rule: fetch_cases [of client readAll prof])
    case (config e)
    then show ?thesis by simp
  next
    case (generate e)
    then show ?thesis by simp
  next
    case (retrieved k content)
    then show ?thesis by (simp add: fetch_first_success [of client k content readAll prof])
  next
    case timeout
    then show ?thesis by (simp add: fetch_all_fail [of client readAll prof])
  qed
  show ?thesis
    using bounds fetch_first_success [of client k content readAll prof]
      fetch_all_fail [of client readAll prof]
    by (simp add: parsed_def)
qed

text \<open>
  Two services for the profile \<^verbatim>\<open>acct1\<close>: one whose report is ready at the 10th retrieval,
  one whose report never is.
\<close>

definition slowClient :: iam_client where
  "slowClient = \<lparr>loadConfig = None, generateReport = None,
     getReport = (\<lambda>k. if k < 9 then Inl ''ReportInProgress'' else Inr ''user,arn'')\<rparr>"

definition deadClient :: iam_client where
  "deadClient = \<lparr>loadConfig = None, generateReport = None,
     getReport = (\<lambda>k. Inl (if k < 9 then ''ReportInProgress'' else ''Throttling''))\<rparr>"

theorem retrieval_bounded_retry_witness:
  "fst (generateCredentialReport (\<lambda>c. Inr [[''user'', ''arn'']]) slowClient ''acct1'')
      = Inr ([''user'', ''arn''], [])
   \<and> count_list (snd (generateCredentialReport (\<lambda>c. Inr [[''user'', ''arn'']]) slowClient ''acct1''))
        GetReport = 10
   \<and> count_list (snd (generateCredentialReport (\<lambda>c. Inr [[''user'', ''arn'']]) slowClient ''acct1''))
        Generate = 1
   \<and> fst (generateCredentialReport (\<lambda>c. Inr [[''user'', ''arn'']]) deadClient ''acct1'')
      = Inl (FetchFailed ''acct1'' ''Throttling'')"
  using retrieval_bounded_retry [of "\<lambda>c. Inr [[''user'', ''arn'']]" slowClient "''acct1''" 9 "''user,arn''"]
    retrieval_bounded_retry [of "\<lambda>c. Inr [[''user'', ''arn'']]" deadClient "''acct1''" 0 "''x''"]
  by (simp add: slowClient_def deadClient_def)

section \<open>Properties of the fetch coordinator\<close>

lemma count_list_update:
  "i < length xs \<Longrightarrow>
     count_list (xs[i := y]) z + (if xs ! i = z then 1 else 0)
       = count_list xs z + (if y = z then 1 else 0)"
proof (induction xs arbitrary: i)
  case Nil
  then show ?case by simp
next
  case (Cons x xs)
  show ?case
  proof (cases i)
    case 0
    then show ?thesis by simp
  next
    case (Suc j)
    with Cons.prems have "j < length xs" by simp
    from Cons.IH [OF this] show ?thesis using Suc by (simp split: if_splits)
  qed
qed

text \<open>
  What slot \<open>i\<close> of \<^verbatim>\<open>results\<close> holds once goroutine \<open>i\<close> has finished: the result of its
  fetch, or still the zero value when the fetch failed.
\<close>

definition slot :: "(string \<Rightarrow> fetch_error + string list \<times> string list list) \<Rightarrow> string list
    \<Rightarrow> nat \<Rightarrow> profileResult" where
  "slot fetch ps i =
     (case fetch (ps ! i) of
        Inl e \<Rightarrow> zeroResult
      | Inr (hdr, rws) \<Rightarrow> \<lparr>idx = int i, profile = ps ! i, header = hdr, rows = rws\<rparr>)"

text \<open>
  The invariant of the coordinator: the channel holds one token per goroutine between its send
  and its receive, at most 4; the slots of finished goroutines are written, the others are
  not; and the error group holds an error exactly when a finished fetch failed.
\<close>

definition coord_inv :: "(string \<Rightarrow> fetch_error + string list \<times> string list list) \<Rightarrow> string list
    \<Rightarrow> coordinator \<Rightarrow> bool" where
  "coord_inv fetch ps s =
     (length (tasks s) = length ps \<and> length (results s) = length ps
      \<and> sem s = count_list (tasks s) Holding \<and> sem s \<le> 4
      \<and> (\<forall>i<length ps. results s ! i
             = (if tasks s ! i = Finished then slot fetch ps i else zeroResult))
      \<and> (egErr s = None \<longleftrightarrow> (\<forall>i<length ps. tasks s ! i = Finished \<longrightarrow> \<not> isl (fetch (ps ! i)))))"

lemma inv_launch: "coord_inv fetch ps (launch ps)"
  by (simp add: coord_inv_def launch_def)

lemma count_replicate_other [simp]: "a \<noteq> b \<Longrightarrow> count_list (replicate n a) b = 0"
  by (induction n) auto

lemma inv_step:
  assumes "coord_inv fetch ps s" "step fetch ps ev s = Some s'"
  shows "coord_inv fetch ps s'"
proof (cases ev)
  case (Acquire i)
  with assms(2) have i: "i < length (tasks s)" "tasks s ! i = Launched" "sem s < 4"
    and s': "s' = s\<lparr>sem := sem s + 1, tasks := (tasks s)[i := Holding]\<rparr>"
    by (auto split: if_splits)
  have "count_list ((tasks s)[i := Holding]) Holding = count_list (tasks s) Holding + 1"
    using count_list_update [OF i(1), of Holding Holding] i(2) by simp
  moreover have "(tasks s)[i := Holding] ! j = Finished \<longleftrightarrow> tasks s ! j = Finished" for j
    using i by (cases "j = i") simp_all
  ultimately show ?thesis
    using assms(1) i unfolding s' coord_inv_def by simp
next
  case (Complete i)
  with assms(2) have i: "i < length (tasks s)" "tasks s ! i = Holding" "0 < sem s"
    by (auto split: if_splits)
  have cnt: "count_list ((tasks s)[i := Finished]) Holding + 1 = count_list (tasks s) Holding"
    using count_list_update [OF i(1), of Finished Holding] i(2) by simp
  show ?thesis
  proof (cases "fetch (ps ! i)")
    case (Inl e)
    with Complete assms(2) i have s': "s' = s\<lparr>egErr := (case egErr s of None \<Rightarrow> Some e | Some e0 \<Rightarrow> Some e0),
                        sem := sem s - 1, tasks := (tasks s)[i := Finished]\<rparr>"
      by simp
    have "slot fetch ps i = zeroResult" using Inl by (simp add: slot_def)
    then show ?thesis
      using assms(1) i cnt Inl unfolding s' coord_inv_def
      by (auto simp: nth_list_update split: option.splits)
  next
    case (Inr hr)
    obtain hdr rws where hr: "hr = (hdr, rws)" by (cases hr)
    with Inr Complete assms(2) i have s': "s' = s\<lparr>results := (results s)
                          [i := \<lparr>idx = int i, profile = ps ! i, header = hdr, rows = rws\<rparr>],
                        sem := sem s - 1, tasks := (tasks s)[i := Finished]\<rparr>"
      by simp
    have "slot fetch ps i = \<lparr>idx = int i, profile = ps ! i, header = hdr, rows = rws\<rparr>"
      using Inr hr by (simp add: slot_def)
    then show ?thesis
      using assms(1) i cnt Inr unfolding s' coord_inv_def
      by (auto simp: nth_list_update)
  qed
qed

lemma inv_run:
  "coord_inv fetch ps s \<Longrightarrow> run fetch ps evs s = Some s' \<Longrightarrow> coord_inv fetch ps s'"
proof (induction evs arbitrary: s)
  case Nil
  then show ?case by simp
next
  case (Cons ev evs)
  then obtain s1 where "step fetch ps ev s = Some s1" "run fetch ps evs s1 = Some s'"
    by (auto split: option.splits)
  with Cons.IH [of s1] Cons.prems(1) inv_step [of fetch ps s ev s1] show ?case by blast
qed

lemma fetchAll_results:
  assumes "fetchAll fetch ps schedule = Some (Inr rs)"
  shows "rs = map (slot fetch ps) [0..<length ps] \<and> (\<forall>i<length ps. \<not> isl (fetch (ps ! i)))"
proof -
  from assms obtain s where s: "run fetch ps schedule (launch ps) = Some s"
    and fin: "list_all (\<lambda>t. t = Finished) (tasks s)" and err: "egErr s = None"
    and rs: "rs = results s"
    by (auto simp: fetchAll_def split: option.splits if_splits)
  have inv: "coord_inv fetch ps s"
    using inv_run [OF inv_launch s] .
  have all: "tasks s ! i = Finished" if "i < length ps" for i
    using fin inv that by (simp add: list_all_length coord_inv_def)
  have "results s = map (slot fetch ps) [0..<length ps]"
    using inv all by (intro nth_equalityI) (simp_all add: coord_inv_def)
  moreover have "\<forall>i<length ps. \<not> isl (fetch (ps ! i))"
    using inv all err by (simp add: coord_inv_def)
  ultimately show ?thesis using rs by simp
qed

lemma fetchAll_error:
  assumes "fetchAll fetch ps schedule = Some (Inl e)"
  shows "\<exists>i<length ps. isl (fetch (ps ! i))"
proof -
  from assms obtain s where s: "run fetch ps schedule (launch ps) = Some s"
    and err: "egErr s \<noteq> None"
    by (auto simp: fetchAll_def split: option.splits if_splits)
  have "coord_inv fetch ps s"
    using inv_run [OF inv_launch s] .
  with err show ?thesis by (auto simp: coord_inv_def)
qed

text \<open>
  A list whose keys are ordered and distinct is the only ordered permutation of itself, so
  \<^verbatim>\<open>sort.Slice\<close> returns \<^verbatim>\<open>results\<close> as it is when every fetch has succeeded.
\<close>

lemma sorted_perm_unique:
  assumes "mset ys = mset xs" "sorted (map f xs)" "distinct (map f xs)" "sorted (map f ys)"
  shows "ys = xs"
proof -
  have m: "mset (map f ys) = mset (map f xs)"
    using assms(1) by simp
  then have "distinct (map f ys)"
    using assms(3) by (metis mset_eq_imp_distinct_iff)
  moreover have "set (map f ys) = set (map f xs)"
    using m by (metis set_mset_mset)
  ultimately have eq: "map f ys = map f xs"
    using assms(2-4) by (intro sorted_distinct_set_unique) auto
  have "set ys = set xs"
    using assms(1) by (metis set_mset_mset)
  moreover have "inj_on f (set xs)"
    using assms(3) by (simp add: distinct_map)
  ultimately show ?thesis
    using eq by (simp add: inj_on_map_eq_map)
qed

lemma slot_ok:
  "\<not> isl (fetch (ps ! i)) \<Longrightarrow>
     slot fetch ps i = \<lparr>idx = int i, profile = ps ! i, header = fst (projr (fetch (ps ! i))),
        rows = snd (projr (fetch (ps ! i)))\<rparr>"
  by (cases "fetch (ps ! i)") (auto simp: slot_def)

lemma idx_slots:
  assumes "\<forall>i<length ps. \<not> isl (fetch (ps ! i))"
  shows "map idx (map (slot fetch ps) [0..<length ps]) = map int [0..<length ps]"
  using assms by (simp add: slot_ok)

lemma sortSlice_slots:
  assumes "sortsByIdx sortSlice" "\<forall>i<length ps. \<not> isl (fetch (ps ! i))"
  shows "sortSlice (map (slot fetch ps) [0..<length ps]) = map (slot fetch ps) [0..<length ps]"
proof (rule sorted_perm_unique [where f = idx])
  show "mset (sortSlice (map (slot fetch ps) [0..<length ps])) = mset (map (slot fetch ps) [0..<length ps])"
    using assms(1) by (simp add: sortsByIdx_def)
  show "sorted (map idx (sortSlice (map (slot fetch ps) [0..<length ps])))"
    using assms(1) by (simp add: sortsByIdx_def)
  have "sorted (map int [0..<length ps])"
    by (simp add: sorted_map sorted_wrt_iff_nth_less)
  then show "sorted (map idx (map (slot fetch ps) [0..<length ps]))"
    by (simp only: idx_slots [OF assms(2)])
  have "distinct (map int [0..<length ps])"
    by (simp add: distinct_map)
  then show "distinct (map idx (map (slot fetch ps) [0..<length ps]))"
    by (simp only: idx_slots [OF assms(2)])
qed

lemma sort_key_sortsByIdx: "sortsByIdx (sort_key idx)"
  by (simp add: sortsByIdx_def)

section \<open>Properties of the merge\<close>

text \<open>The position of the first column named \<^verbatim>\<open>arn\<close> in a header that has one.\<close>

abbreviation arnColumn :: "string list \<Rightarrow> nat" where
  "arnColumn hdr \<equiv> length (takeWhile (\<lambda>h. h \<noteq> ''arn'') hdr)"

lemma findArn_eq:
  "findArn i hdr = (if ''arn'' \<in> set hdr then i + int (arnColumn hdr) else - 1)"
  by (induction hdr arbitrary: i) auto

text \<open>
  The rows that the loop appends: all of them, or with root exclusion those whose cell in
  column \<open>col\<close> does not end in \<^verbatim>\<open>:root\<close>.
\<close>

definition kept :: "bool \<Rightarrow> nat \<Rightarrow> string list \<Rightarrow> bool" where
  "kept excludeRoot col row = (\<not> (excludeRoot \<and> HasSuffix (row ! col) '':root''))"

lemma appendRows_cases:
  "appendRows ex a p rws acc = Inl IndexOutOfRange
   \<or> appendRows ex a p rws acc = Inr (acc @ map ((#) p) (filter (kept ex (nat a)) rws))"
proof (induction rws arbitrary: acc)
  case Nil
  show ?case by simp
next
  case (Cons row rws)
  show ?case
    using Cons.IH [of acc] Cons.IH [of "acc @ [p # row]"] by (auto simp: kept_def)
qed

lemma appendRows_Inr:
  "appendRows ex a p rws acc = Inr acc' \<Longrightarrow>
     acc' = acc @ map ((#) p) (filter (kept ex (nat a)) rws)"
  using appendRows_cases [of ex a p rws acc] by auto

lemma appendRows_aligned:
  "\<forall>row\<in>set rws. 0 \<le> a \<and> a < int (length row) \<Longrightarrow>
     appendRows ex a p rws acc = Inr (acc @ map ((#) p) (filter (kept ex (nat a)) rws))"
  by (induction rws arbitrary: acc) (auto simp: kept_def)

lemma appendRows_all:
  "appendRows False a p rws acc = Inr (acc @ map ((#) p) rws)"
  by (induction rws arbitrary: acc) auto

text \<open>
  The data rows of the results \<open>rs\<close>, in the order of \<open>rs\<close> and, within a result, in the
  order of its rows, each with its profile in front.
\<close>

definition dataRows :: "bool \<Rightarrow> nat \<Rightarrow> profileResult list \<Rightarrow> string list list" where
  "dataRows excludeRoot col rs =
     concat (map (\<lambda>r. map ((#) (profile r)) (filter (kept excludeRoot col) (rows r))) rs)"

lemma appendResults_Inr:
  "appendResults ex a rs acc = Inr acc' \<Longrightarrow> acc' = acc @ dataRows ex (nat a) rs"
proof (induction rs arbitrary: acc)
  case Nil
  then show ?case by (simp add: dataRows_def)
next
  case (Cons r rs)
  then obtain acc1 where 1: "appendRows ex a (profile r) (rows r) acc = Inr acc1"
    and 2: "appendResults ex a rs acc1 = Inr acc'"
    by (auto split: sum.splits)
  show ?case
    using appendRows_Inr [OF 1] Cons.IH [OF 2] by (simp add: dataRows_def)
qed

lemma appendResults_aligned:
  "\<forall>r\<in>set rs. \<forall>row\<in>set (rows r). 0 \<le> a \<and> a < int (length row) \<Longrightarrow>
     appendResults ex a rs acc = Inr (acc @ dataRows ex (nat a) rs)"
  by (induction rs arbitrary: acc) (auto simp: dataRows_def appendRows_aligned)

lemma appendResults_all:
  "appendResults False a rs acc = Inr (acc @ dataRows False col rs)"
  by (induction rs arbitrary: acc) (auto simp: dataRows_def appendRows_all kept_def)

lemma locateArn_Cons:
  "locateArn (r # rs) =
     (if ''arn'' \<in> set (header r) then Inr (int (arnColumn (header r))) else Inl MissingArnColumn)"
  by (simp add: locateArn_def findArn_eq Let_def)

lemma mergeResults_Nil: "mergeResults ex [] = Inr []"
  by (simp add: mergeResults_def locateArn_def)

lemma mergeResults_no_arn:
  "''arn'' \<notin> set (header r) \<Longrightarrow> mergeResults ex (r # rs) = Inl MissingArnColumn"
  by (simp add: mergeResults_def locateArn_Cons)

lemma mergeResults_arn:
  "''arn'' \<in> set (header r) \<Longrightarrow>
     mergeResults ex (r # rs)
       = appendResults ex (int (arnColumn (header r))) (r # rs) [''profile'' # header r]"
  by (simp add: mergeResults_def locateArn_Cons)

lemma mergeResults_Inr:
  assumes "mergeResults ex (r # rs) = Inr t"
  shows "''arn'' \<in> set (header r)"
    and "t = (''profile'' # header r) # dataRows ex (arnColumn (header r)) (r # rs)"
proof -
  show arn: "''arn'' \<in> set (header r)"
    using assms mergeResults_no_arn [of r ex rs] by auto
  show "t = (''profile'' # header r) # dataRows ex (arnColumn (header r)) (r # rs)"
    using assms appendResults_Inr [of ex "int (arnColumn (header r))" "r # rs" "[''profile'' # header r]" t]
    by (simp only: mergeResults_arn [OF arn]) simp
qed

text \<open>
  The example of two accounts: both reports have the header \<^verbatim>\<open>user, arn, active\<close>; the first
  holds a user, the second the root user.
\<close>

definition acct1 :: profileResult where
  "acct1 = \<lparr>idx = 0, profile = ''acct1'', header = [''user'', ''arn'', ''active''],
     rows = [[''alice'', ''arn:aws:iam::1:user/alice'', ''true'']]\<rparr>"

definition acct2 :: profileResult where
  "acct2 = \<lparr>idx = 1, profile = ''acct2'', header = [''user'', ''arn'', ''active''],
     rows = [[''root'', ''arn:aws:iam::2:root'', ''true'']]\<rparr>"

lemma HasSuffix_iff: "HasSuffix s suffix \<longleftrightarrow> (\<exists>u. s = u @ suffix)"
proof
  assume "HasSuffix s suffix"
  then have "s = take (length s - length suffix) s @ suffix"
    by (metis HasSuffix_def append_take_drop_id)
  then show "\<exists>u. s = u @ suffix" ..
next
  assume "\<exists>u. s = u @ suffix"
  then show "HasSuffix s suffix" by (auto simp: HasSuffix_def)
qed

lemma appendResults_cases:
  "appendResults ex a rs acc = Inl IndexOutOfRange
   \<or> appendResults ex a rs acc = Inr (acc @ dataRows ex (nat a) rs)"
proof (induction rs arbitrary: acc)
  case Nil
  show ?case by (simp add: dataRows_def)
next
  case (Cons r rs)
  show ?case
    using appendRows_cases [of ex a "profile r" "rows r" acc]
      Cons.IH [of "acc @ map ((#) (profile r)) (filter (kept ex (nat a)) (rows r))"]
    by (auto simp: dataRows_def)
qed

lemma mergeResults_arn_cases:
  assumes "''arn'' \<in> set (header r)"
  shows "mergeResults ex (r # rs) = Inl IndexOutOfRange
    \<or> mergeResults ex (r # rs)
        = Inr ((''profile'' # header r) # dataRows ex (arnColumn (header r)) (r # rs))"
  using appendResults_cases [of ex "int (arnColumn (header r))" "r # rs" "[''profile'' # header r]"]
  by (simp only: mergeResults_arn [OF assms]) simp

text \<open>
  C9. The merge of an empty result list is the empty table. The table merged from a
  non-empty list starts with the row made of the literal \<^verbatim>\<open>profile\<close> and the header of the
  first result, the canonical header; without root exclusion that table exists whenever the
  canonical header has a column \<^verbatim>\<open>arn\<close>.
\<close>

theorem merged_table_header:
  "mergeResults excludeRoot [] = Inr []
   \<and> (mergeResults excludeRoot (r # rs) = Inr table \<longrightarrow>
        table \<noteq> [] \<and> hd table = ''profile'' # header r)
   \<and> (''arn'' \<in> set (header r) \<longrightarrow> \<not> isl (mergeResults False (r # rs)))"
proof (intro conjI impI)
  show "mergeResults excludeRoot [] = Inr []"
    by (rule mergeResults_Nil)
next
  assume "mergeResults excludeRoot (r # rs) = Inr table"
  from mergeResults_Inr(2) [OF this]
  show "table \<noteq> []" and "hd table = ''profile'' # header r" by simp_all
next
  assume "''arn'' \<in> set (header r)"
  then show "\<not> isl (mergeResults False (r # rs))"
    by (simp only: mergeResults_arn appendResults_all [where col = 0]) simp
qed

theorem merged_table_header_witness:
  "mergeResults True [acct1, acct2]
     = Inr [[''profile'', ''user'', ''arn'', ''active''],
            [''acct1'', ''alice'', ''arn:aws:iam::1:user/alice'', ''true'']]
   \<and> hd [[''profile'', ''user'', ''arn'', ''active''],
            [''acct1'', ''alice'', ''arn:aws:iam::1:user/alice'', ''true'']]
        = ''profile'' # header acct1
   \<and> \<not> isl (mergeResults False [acct1, acct2])"
proof -
  have m: "mergeResults True [acct1, acct2]
     = Inr [[''profile'', ''user'', ''arn'', ''active''],
            [''acct1'', ''alice'', ''arn:aws:iam::1:user/alice'', ''true'']]"
    by (simp add: mergeResults_def locateArn_def acct1_def acct2_def HasSuffix_def)
  have a: "''arn'' \<in> set (header acct1)"
    by (simp add: acct1_def)
  show ?thesis
    using merged_table_header [of True acct1 "[acct2]"
        "[[''profile'', ''user'', ''arn'', ''active''],
          [''acct1'', ''alice'', ''arn:aws:iam::1:user/alice'', ''true'']]"] m a
    by simp
qed

text \<open>
  C7. When the result list is not empty, the header of the first result is searched for a
  column named exactly \<^verbatim>\<open>arn\<close>, and the program stops with the missing-column error when
  there is none, whether or not root exclusion was requested, so also without it; a first
  header that has the column never gives that error.
\<close>

theorem arn_column_required:
  "(rs \<noteq> [] \<and> ''arn'' \<notin> set (header (hd rs)) \<longrightarrow>
      mergeResults excludeRoot rs = Inl MissingArnColumn
      \<and> mergeResults False rs = Inl MissingArnColumn)
   \<and> (rs \<noteq> [] \<and> ''arn'' \<in> set (header (hd rs)) \<longrightarrow>
      mergeResults excludeRoot rs \<noteq> Inl MissingArnColumn)"
proof (cases rs)
  case Nil
  then show ?thesis by simp
next
  case (Cons r rest)
  have "mergeResults ex (r # rest) \<noteq> Inl MissingArnColumn" if "''arn'' \<in> set (header r)" for ex
    using mergeResults_arn_cases [OF that, of ex rest] by auto
  then show ?thesis
    using Cons mergeResults_no_arn [of r _ rest] by auto
qed


text \<open>A report whose header has no column \<^verbatim>\<open>arn\<close>.\<close>

definition noArn :: profileResult where
  "noArn = \<lparr>idx = 0, profile = ''acct1'', header = [''user'', ''active''],
     rows = [[''alice'', ''true'']]\<rparr>"

theorem arn_column_required_witness:
  "mergeResults False [noArn, acct2] = Inl MissingArnColumn
   \<and> mergeResults False [acct1, noArn] \<noteq> Inl MissingArnColumn"
  using arn_column_required [of "[noArn, acct2]" False]
    arn_column_required [of "[acct1, noArn]" False]
  by (simp add: noArn_def acct1_def)

lemma arnColumn_less: "''arn'' \<in> set hdr \<Longrightarrow> arnColumn hdr < length hdr"
  by (induction hdr) auto

lemma arnColumn_nth: "''arn'' \<in> set hdr \<Longrightarrow> hdr ! arnColumn hdr = ''arn''"
  by (induction hdr) auto

lemma arnColumn_first: "j < arnColumn hdr \<Longrightarrow> hdr ! j \<noteq> ''arn''"
  using nth_mem [of j "takeWhile (\<lambda>h. h \<noteq> ''arn'') hdr"] set_takeWhileD [of "hdr ! j" "\<lambda>h. h \<noteq> ''arn''" hdr]
  by (auto simp: takeWhile_nth)

text \<open>
  C3. Let every row of every result have as many cells as the canonical header. The merge
  stops with the missing-column error when the (non-empty) list's canonical header has no
  column \<^verbatim>\<open>arn\<close>; otherwise the merged table is the header row followed, result by result
  and row by row, by the profile put in front of the unchanged cells of each row, where with
  root exclusion exactly the rows whose cell in the first column named \<^verbatim>\<open>arn\<close> ends with
  \<^verbatim>\<open>:root\<close> are left out, and without root exclusion no row is.
\<close>

theorem root_rows_filtered:
  assumes "\<forall>r\<in>set rs. \<forall>row\<in>set (rows r). length row = length (header (hd rs))"
  shows "mergeResults excludeRoot rs =
     (if rs = [] then Inr []
      else if ''arn'' \<notin> set (header (hd rs)) then Inl MissingArnColumn
      else Inr ((''profile'' # header (hd rs)) #
             concat (map (\<lambda>r. map ((#) (profile r))
                       (filter (\<lambda>row. \<not> (excludeRoot
                                   \<and> HasSuffix (row ! arnColumn (header (hd rs))) '':root''))
                          (rows r))) rs)))
    \<and> (HasSuffix cell '':root'' \<longleftrightarrow> (\<exists>u. cell = u @ '':root''))
    \<and> (''arn'' \<in> set (header (hd rs)) \<longrightarrow>
          arnColumn (header (hd rs)) < length (header (hd rs))
          \<and> header (hd rs) ! arnColumn (header (hd rs)) = ''arn'')"
proof (intro conjI)
  show "HasSuffix cell '':root'' \<longleftrightarrow> (\<exists>u. cell = u @ '':root'')"
    by (rule HasSuffix_iff)
  show "''arn'' \<in> set (header (hd rs)) \<longrightarrow>
          arnColumn (header (hd rs)) < length (header (hd rs))
          \<and> header (hd rs) ! arnColumn (header (hd rs)) = ''arn''"
    using arnColumn_less arnColumn_nth by blast
  show "mergeResults excludeRoot rs =
     (if rs = [] then Inr []
      else if ''arn'' \<notin> set (header (hd rs)) then Inl MissingArnColumn
      else Inr ((''profile'' # header (hd rs)) #
             concat (map (\<lambda>r. map ((#) (profile r))
                       (filter (\<lambda>row. \<not> (excludeRoot
                                   \<and> HasSuffix (row ! arnColumn (header (hd rs))) '':root''))
                          (rows r))) rs)))"
  proof (cases rs)
    case Nil
    then show ?thesis by (simp add: mergeResults_Nil)
  next
    case (Cons r rest)
    show ?thesis
    proof (cases "''arn'' \<in> set (header r)")
      case False
      then show ?thesis using Cons by (simp add: mergeResults_no_arn)
    next
      case True
      have "\<forall>q\<in>set (r # rest). \<forall>row\<in>set (rows q).
              0 \<le> int (arnColumn (header r)) \<and> int (arnColumn (header r)) < int (length row)"
        using assms arnColumn_less [OF True] unfolding Cons by simp
      then have "appendResults excludeRoot (int (arnColumn (header r))) (r # rest) [''profile'' # header r]
          = Inr ([''profile'' # header r]
                 @ dataRows excludeRoot (nat (int (arnColumn (header r)))) (r # rest))"
        by (rule appendResults_aligned)
      then have "mergeResults excludeRoot (r # rest)
          = Inr ((''profile'' # header r) # dataRows excludeRoot (arnColumn (header r)) (r # rest))"
        by (simp only: mergeResults_arn [OF True]) simp
      then show ?thesis
        using True unfolding Cons by (simp add: dataRows_def kept_def [abs_def])
    qed
  qed
qed

theorem root_rows_filtered_witness:
  "mergeResults True [acct1, acct2]
     = Inr [[''profile'', ''user'', ''arn'', ''active''],
            [''acct1'', ''alice'', ''arn:aws:iam::1:user/alice'', ''true'']]
   \<and> mergeResults False [acct1, acct2]
     = Inr [[''profile'', ''user'', ''arn'', ''active''],
            [''acct1'', ''alice'', ''arn:aws:iam::1:user/alice'', ''true''],
            [''acct2'', ''root'', ''arn:aws:iam::2:root'', ''true'']]"
  using root_rows_filtered [of "[acct1, acct2]" True] root_rows_filtered [of "[acct1, acct2]" False]
  by (simp add: acct1_def acct2_def HasSuffix_def)

text \<open>
  A report whose columns are in another order than those of \<open>acct1\<close>, with the root user's
  row.
\<close>

definition reordered :: profileResult where
  "reordered = \<lparr>idx = 1, profile = ''acct2'', header = [''arn'', ''user''],
     rows = [[''arn:aws:iam::2:root'', ''root'']]\<rparr>"

lemma appendResults_header:
  "appendResults ex a (map (\<lambda>x. x\<lparr>header := h x\<rparr>) rs) acc = appendResults ex a rs acc"
  by (induction rs arbitrary: acc) (auto split: sum.splits)

lemma appendRows_header:
  "appendRows ex a (profile (r\<lparr>header := hdr\<rparr>)) (rows (r\<lparr>header := hdr\<rparr>)) acc
     = appendRows ex a (profile r) (rows r) acc"
  by simp

text \<open>
  Against C2 as stated: two results whose headers differ are merged, with or without root
  exclusion, and the rows of the second are read by the columns of the first; the run does not
  fail, and the root user's row of the second result is kept.
\<close>

theorem header_mismatch_counterexample:
  "header reordered \<noteq> header acct1
   \<and> mergeResults False [acct1, reordered]
       = Inr [[''profile'', ''user'', ''arn'', ''active''],
              [''acct1'', ''alice'', ''arn:aws:iam::1:user/alice'', ''true''],
              [''acct2'', ''arn:aws:iam::2:root'', ''root'']]
   \<and> mergeResults True [acct1, reordered]
       = Inr [[''profile'', ''user'', ''arn'', ''active''],
              [''acct1'', ''alice'', ''arn:aws:iam::1:user/alice'', ''true''],
              [''acct2'', ''arn:aws:iam::2:root'', ''root'']]"
  by (simp add: mergeResults_def locateArn_def acct1_def reordered_def HasSuffix_def)

text \<open>
  C2, amended. The merge does not compare headers. The canonical header is the header of the
  first result, and the headers of the other results are never read: replacing them by any
  others changes neither the merged table nor the error, so results whose headers disagree
  are merged as they are.
\<close>

theorem other_headers_ignored:
  "mergeResults excludeRoot (r # map (\<lambda>x. x\<lparr>header := h x\<rparr>) rs)
     = mergeResults excludeRoot (r # rs)"
proof (cases "''arn'' \<in> set (header r)")
  case False
  then show ?thesis by (simp add: mergeResults_no_arn)
next
  case True
  have "appendResults excludeRoot a (r # map (\<lambda>x. x\<lparr>header := h x\<rparr>) rs) acc
      = appendResults excludeRoot a (r # rs) acc" for a acc
    by (simp add: appendResults_header split: sum.splits)
  then show ?thesis
    by (simp only: mergeResults_arn [OF True])
qed

text \<open>
  Two reports with a header and no data row, the first without a column \<^verbatim>\<open>arn\<close>, and a
  service whose report is ready at once.
\<close>

definition headerOnly :: profileResult where
  "headerOnly = \<lparr>idx = 0, profile = ''acct1'', header = [''user'', ''active''], rows = []\<rparr>"

definition emptyReport :: profileResult where
  "emptyReport = \<lparr>idx = 1, profile = ''acct3'', header = [''user'', ''arn'', ''active''], rows = []\<rparr>"

definition readyClient :: iam_client where
  "readyClient = \<lparr>loadConfig = None, generateReport = None, getReport = (\<lambda>k. Inr [])\<rparr>"

text \<open>
  Against C6 as stated: a first result that has a header and no data row stops the run with
  the missing-column error when that header has no column \<^verbatim>\<open>arn\<close>.
\<close>

theorem header_only_profile_counterexample:
  "header headerOnly \<noteq> [] \<and> rows headerOnly = []
   \<and> mergeResults False [headerOnly] = Inl MissingArnColumn"
  by (simp add: mergeResults_def locateArn_def headerOnly_def)

lemma appendResults_append:
  "appendResults ex a (xs @ ys) acc =
     (case appendResults ex a xs acc of Inl e \<Rightarrow> Inl e | Inr acc' \<Rightarrow> appendResults ex a ys acc')"
  by (induction xs arbitrary: acc) (auto split: sum.splits)

lemma appendResults_no_rows:
  "rows r = [] \<Longrightarrow> appendResults ex a (xs @ r # ys) acc = appendResults ex a (xs @ ys) acc"
  by (simp add: appendResults_append split: sum.splits)

text \<open>
  C6, amended. A fetch whose retrieved payload parses to no record at all succeeds with an
  empty header and no rows. A result with a header and no data row gives, when it is the only
  one and its header has a column \<^verbatim>\<open>arn\<close>, the table made of its header row alone; when it
  is the first one, every table merged has its header row first and then the data rows of
  the other results only; and when it is not the first one, the merge is what it is without
  that result.
\<close>

theorem empty_payloads_tolerated:
  "(loadConfig client = None \<and> generateReport client = None \<and> k < 10
      \<and> (\<forall>j<k. isl (getReport client j)) \<and> getReport client k = Inr content
      \<and> readAll content = Inr [] \<longrightarrow>
      fst (generateCredentialReport readAll client prof) = Inr ([], []))
   \<and> (rows r = [] \<and> ''arn'' \<in> set (header r) \<longrightarrow>
        mergeResults excludeRoot [r] = Inr [''profile'' # header r])
   \<and> (rows r = [] \<and> mergeResults excludeRoot (r # rs) = Inr table \<longrightarrow>
        table = (''profile'' # header r) # dataRows excludeRoot (arnColumn (header r)) rs)
   \<and> (rows r = [] \<and> pre \<noteq> [] \<longrightarrow>
        mergeResults excludeRoot (pre @ r # post) = mergeResults excludeRoot (pre @ post))"
proof (intro conjI impI)
  assume "loadConfig client = None \<and> generateReport client = None \<and> k < 10
      \<and> (\<forall>j<k. isl (getReport client j)) \<and> getReport client k = Inr content
      \<and> readAll content = Inr []"
  then show "fst (generateCredentialReport readAll client prof) = Inr ([], [])"
    using fetch_first_success [of client k content readAll prof] by (simp add: parsed_def)
next
  assume "rows r = [] \<and> ''arn'' \<in> set (header r)"
  then show "mergeResults excludeRoot [r] = Inr [''profile'' # header r]"
    by (simp add: mergeResults_arn)
next
  assume a: "rows r = [] \<and> mergeResults excludeRoot (r # rs) = Inr table"
  then have "table = (''profile'' # header r) # dataRows excludeRoot (arnColumn (header r)) (r # rs)"
    using mergeResults_Inr(2) by blast
  then show "table = (''profile'' # header r) # dataRows excludeRoot (arnColumn (header r)) rs"
    using a by (simp add: dataRows_def)
next
  assume a: "rows r = [] \<and> pre \<noteq> []"
  then obtain p pre' where pre: "pre = p # pre'"
    by (cases pre) auto
  show "mergeResults excludeRoot (pre @ r # post) = mergeResults excludeRoot (pre @ post)"
  proof (cases "''arn'' \<in> set (header p)")
    case False
    then show ?thesis by (simp add: pre mergeResults_no_arn)
  next
    case True
    have "appendResults excludeRoot b ((p # pre') @ r # post) acc
        = appendResults excludeRoot b ((p # pre') @ post) acc" for b acc
      using a by (intro appendResults_no_rows) simp
    then have "appendResults excludeRoot b (p # (pre' @ r # post)) acc
        = appendResults excludeRoot b (p # (pre' @ post)) acc" for b acc
      by (simp only: append_Cons)
    then show ?thesis
      unfolding pre append_Cons by (simp only: mergeResults_arn [OF True])
  qed
qed

theorem empty_payloads_tolerated_witness:
  "fst (generateCredentialReport (\<lambda>c. Inr []) readyClient ''acct3'') = Inr ([], [])
   \<and> mergeResults True [emptyReport] = Inr [[''profile'', ''user'', ''arn'', ''active'']]
   \<and> mergeResults True [acct1, emptyReport, acct2] = mergeResults True [acct1, acct2]
   \<and> mergeResults True [emptyReport, acct1]
       = Inr [[''profile'', ''user'', ''arn'', ''active''],
              [''acct1'', ''alice'', ''arn:aws:iam::1:user/alice'', ''true'']]"
proof -
  have m: "mergeResults True [emptyReport, acct1]
       = Inr [[''profile'', ''user'', ''arn'', ''active''],
              [''acct1'', ''alice'', ''arn:aws:iam::1:user/alice'', ''true'']]"
    by (simp add: mergeResults_def locateArn_def acct1_def emptyReport_def HasSuffix_def)
  show ?thesis
    using m empty_payloads_tolerated [of readyClient 0 "[]" "\<lambda>c. Inr []" "''acct3''" emptyReport True
        "[acct1]" "[[''profile'', ''user'', ''arn'', ''active''],
              [''acct1'', ''alice'', ''arn:aws:iam::1:user/alice'', ''true'']]" "[acct1]" "[acct2]"]
    by (simp add: readyClient_def emptyReport_def)
qed

end
